theory Spec2Isabelle
  imports Complex_Main "HOL-Library.Sublist"
begin

section \<open>Python text primitives\<close>

text \<open>
  A Python \<open>str\<close> is a sequence of code points. The model covers the code points
  below 256: a \<^typ>\<open>char\<close> is the code point \<open>of_char c\<close>, and \<open>length\<close> counts
  code points as Python's \<open>len\<close> does. The character classes below are the ones
  Python 3 uses for \<open>str.isspace\<close> (also the regular expression class \<open>\s\<close>),
  for \<open>\w\<close>, for \<open>\d\<close> and for \<open>str.lower\<close> on that range.
\<close>

definition code :: "char \<Rightarrow> nat" where
  "code c = of_char c"

definition isspace :: "char \<Rightarrow> bool" where
  "isspace c = (let n = code c in
     (9 \<le> n \<and> n \<le> 13) \<or> (28 \<le> n \<and> n \<le> 32) \<or> n = 133 \<or> n = 160)"

definition isdigit :: "char \<Rightarrow> bool" where
  "isdigit c = (let n = code c in 48 \<le> n \<and> n \<le> 57)"

definition is_letter :: "char \<Rightarrow> bool" where
  \<comment> \<open>the class \<open>[a-zA-Z]\<close>\<close>
  "is_letter c = (let n = code c in (65 \<le> n \<and> n \<le> 90) \<or> (97 \<le> n \<and> n \<le> 122))"

definition is_word :: "char \<Rightarrow> bool" where
  \<comment> \<open>the class \<open>\w\<close> of a \<open>str\<close> pattern: alphanumeric code points and the underscore\<close>
  "is_word c = (let n = code c in
     (48 \<le> n \<and> n \<le> 57) \<or> (65 \<le> n \<and> n \<le> 90) \<or> n = 95 \<or> (97 \<le> n \<and> n \<le> 122) \<or>
     n = 170 \<or> n = 178 \<or> n = 179 \<or> n = 181 \<or> n = 185 \<or> n = 186 \<or>
     (188 \<le> n \<and> n \<le> 190) \<or> (192 \<le> n \<and> n \<le> 214) \<or> (216 \<le> n \<and> n \<le> 246) \<or>
     (248 \<le> n \<and> n \<le> 255))"

definition lower_char :: "char \<Rightarrow> char" where
  "lower_char c = (let n = code c in
     if (65 \<le> n \<and> n \<le> 90) \<or> (192 \<le> n \<and> n \<le> 222 \<and> n \<noteq> 215)
     then char_of (n + 32) else c)"

definition lower :: "string \<Rightarrow> string" where
  "lower s = map lower_char s"

definition lstrip :: "string \<Rightarrow> string" where
  "lstrip s = dropWhile isspace s"

definition rstrip :: "string \<Rightarrow> string" where
  "rstrip s = rev (dropWhile isspace (rev s))"

definition strip :: "string \<Rightarrow> string" where
  "strip s = rstrip (lstrip s)"

text \<open>
  \<open>s[:k]\<close> for a list or string: a negative bound counts from the end.
\<close>

definition slice_to :: "'a list \<Rightarrow> int \<Rightarrow> 'a list" where
  "slice_to xs k = (if 0 \<le> k then take (nat k) xs else take (nat (int (length xs) + k)) xs)"

section \<open>JSON values\<close>

text \<open>
  The values \<open>json.dump\<close> writes and \<open>json.load\<close> reads back. A Python float is
  modelled as a real number throughout (\<open>math.log\<close> as \<open>ln\<close>, \<open>math.sqrt\<close> as
  \<open>sqrt\<close>); rounding is not modelled.
\<close>

datatype json =
    JNull
  | JBool bool
  | JInt int
  | JFloat real
  | JStr string
  | JArr "json list"
  | JObj "(string \<times> json) list"

section \<open>vector\_store.py\<close>

subsection \<open>State\<close>

text \<open>
  A stored document is the dict built in \<open>add_documents\<close>, with the keys \<open>id\<close>,
  \<open>content\<close>, \<open>metadata\<close> and \<open>tokens\<close>. The metadata is whatever JSON value the
  caller supplied. A document handed to \<open>add_documents\<close> is a dict read with
  \<open>doc.get("content", "")\<close> and \<open>doc.get("metadata", {})\<close>: each key may be absent.
\<close>

record doc_entry =
  doc_id :: string
  content :: string
  metadata :: json
  tokens :: "string list"

record in_doc =
  in_content :: "string option"
  in_metadata :: "json option"

text \<open>
  The file at \<open>storage_path\<close>: absent, present but not parseable as JSON, or holding
  a JSON value.
\<close>

datatype snapshot_file = Absent | Corrupt | Stored json

text \<open>
  \<open>vocabulary\<close> is a Python set, kept here as a list without duplicates whose
  order carries no meaning. \<open>idf_scores\<close> is a dict, kept as an association list in
  insertion order.
\<close>

record vector_store =
  documents :: "doc_entry list"
  vocabulary :: "string list"
  idf_scores :: "(string \<times> real) list"
  storage :: snapshot_file

definition init_store :: "snapshot_file \<Rightarrow> vector_store" where
  \<comment> \<open>the assignments of \<open>__init__\<close> before \<open>_load_data\<close>\<close>
  "init_store f = \<lparr>documents = [], vocabulary = [], idf_scores = [], storage = f\<rparr>"

subsection \<open>Dict and set helpers\<close>

definition dict_get :: "('k \<times> 'v) list \<Rightarrow> 'k \<Rightarrow> 'v \<Rightarrow> 'v" where
  \<comment> \<open>\<open>d.get(k, default)\<close>\<close>
  "dict_get d k dflt = (case map_of d k of None \<Rightarrow> dflt | Some v \<Rightarrow> v)"

fun dict_set :: "'k \<Rightarrow> 'v \<Rightarrow> ('k \<times> 'v) list \<Rightarrow> ('k \<times> 'v) list" where
  \<comment> \<open>\<open>d[k] = v\<close>: an existing key keeps its position, a new key goes last\<close>
  "dict_set k v [] = [(k, v)]"
| "dict_set k v ((k', v') # d) = (if k' = k then (k, v) # d else (k', v') # dict_set k v d)"

fun counter_add :: "'k \<Rightarrow> ('k \<times> nat) list \<Rightarrow> ('k \<times> nat) list" where
  \<comment> \<open>\<open>c[k] += 1\<close> on a \<open>Counter\<close>: a missing key counts as 0\<close>
  "counter_add k [] = [(k, 1)]"
| "counter_add k ((k', n) # c) = (if k' = k then (k, n + 1) # c else (k', n) # counter_add k c)"

definition counter :: "'k list \<Rightarrow> ('k \<times> nat) list" where
  \<comment> \<open>\<open>Counter(xs)\<close>\<close>
  "counter xs = fold counter_add xs []"

definition set_items :: "'a list \<Rightarrow> 'a list" where
  \<comment> \<open>the elements of \<open>set(xs)\<close> in the order a loop visits them; Python fixes no
      order for a set, the model visits each element once in the order of \<open>remdups\<close>\<close>
  "set_items xs = remdups xs"

definition set_update :: "'a list \<Rightarrow> 'a list \<Rightarrow> 'a list" where
  \<comment> \<open>\<open>s.update(xs)\<close> on a set kept as a duplicate-free list\<close>
  "set_update s xs = fold (\<lambda>x acc. if x \<in> set acc then acc else acc @ [x]) xs s"

subsection \<open>Tokenizer\<close>

text \<open>
  \<open>re.findall(r'\b[a-zA-Z]+\b', s)\<close>. A match starts at a word boundary followed by a
  letter, so at the first character of a maximal run of \<open>\w\<close> characters; the greedy
  \<open>[a-zA-Z]+\<close> must end at a word boundary, which inside a run of \<open>\w\<close> characters
  exists only at the end of the run. The matches are therefore the maximal runs of
  \<open>\w\<close> characters that consist of letters only, from left to right. \<open>word_runs\<close>
  collects the maximal runs; its first argument is the run being read.
\<close>

fun word_runs :: "string \<Rightarrow> string \<Rightarrow> string list" where
  "word_runs cur [] = (if cur = [] then [] else [cur])"
| "word_runs cur (c # cs) =
     (if is_word c then word_runs (cur @ [c]) cs
      else (if cur = [] then [] else [cur]) @ word_runs [] cs)"

definition findall_words :: "string \<Rightarrow> string list" where
  "findall_words s = filter (list_all is_letter) (word_runs [] s)"

definition tokenize :: "string \<Rightarrow> string list" where
  "tokenize text = filter (\<lambda>token. 2 < length token) (findall_words (lower text))"

subsection \<open>Persistence\<close>

definition doc_to_json :: "doc_entry \<Rightarrow> json" where
  "doc_to_json d = JObj [(''id'', JStr (doc_id d)), (''content'', JStr (content d)),
     (''metadata'', metadata d), (''tokens'', JArr (map JStr (tokens d)))]"

definition snapshot_of :: "vector_store \<Rightarrow> json" where
  \<comment> \<open>the dict \<open>data\<close> of \<open>_save_data\<close>\<close>
  "snapshot_of st = JObj [(''documents'', JArr (map doc_to_json (documents st))),
     (''vocabulary'', JArr (map JStr (vocabulary st))),
     (''idf_scores'', JObj (map (\<lambda>(t, w). (t, JFloat w)) (idf_scores st)))]"

text \<open>
  What happens at \<open>open(..., 'w')\<close> and \<open>json.dump\<close>: the write succeeds, \<open>open\<close>
  raises (the file is left as it was), or \<open>json.dump\<close> raises after \<open>open\<close> has
  truncated the file (what is left is not a JSON document). \<open>_save_data\<close> catches
  the exception, logs it and returns normally in every case.
\<close>

datatype write_outcome = Written | OpenFailed | DumpFailed

definition save_data :: "write_outcome \<Rightarrow> vector_store \<Rightarrow> vector_store" where
  "save_data w st = (case w of
       Written \<Rightarrow> st\<lparr>storage := Stored (snapshot_of st)\<rparr>
     | OpenFailed \<Rightarrow> st
     | DumpFailed \<Rightarrow> st\<lparr>storage := Corrupt\<rparr>)"

text \<open>
  \<open>json.load\<close> returns untyped Python values and \<open>_load_data\<close> stores them as they
  are. The records above hold only well-shaped values, so reading a JSON value back
  into them is partial: \<open>None\<close> stands for a JSON object that \<open>_save_data\<close> cannot
  have written from a state of the model (Python would keep its ill-shaped parts).
  A file that is absent, that does not parse, or whose value is not an object
  leaves the store as \<open>__init__\<close> set it: \<open>_load_data\<close> catches the exception.
\<close>

fun json_str :: "json \<Rightarrow> string option" where
  "json_str (JStr s) = Some s"
| "json_str _ = None"

fun json_number :: "json \<Rightarrow> real option" where
  "json_number (JFloat r) = Some r"
| "json_number (JInt i) = Some (of_int i)"
| "json_number _ = None"

fun those_map :: "('a \<Rightarrow> 'b option) \<Rightarrow> 'a list \<Rightarrow> 'b list option" where
  "those_map f [] = Some []"
| "those_map f (x # xs) =
     (case f x of None \<Rightarrow> None
      | Some y \<Rightarrow> (case those_map f xs of None \<Rightarrow> None | Some ys \<Rightarrow> Some (y # ys)))"

fun json_str_list :: "json \<Rightarrow> string list option" where
  "json_str_list (JArr js) = those_map json_str js"
| "json_str_list _ = None"

fun json_to_doc :: "json \<Rightarrow> doc_entry option" where
  "json_to_doc (JObj kv) =
     (case (map_of kv ''id'', map_of kv ''content'', map_of kv ''metadata'', map_of kv ''tokens'') of
        (Some i, Some c, Some m, Some t) \<Rightarrow>
          (case (json_str i, json_str c, json_str_list t) of
             (Some i', Some c', Some t') \<Rightarrow>
               Some \<lparr>doc_id = i', content = c', metadata = m, tokens = t'\<rparr>
           | _ \<Rightarrow> None)
      | _ \<Rightarrow> None)"
| "json_to_doc _ = None"

fun json_to_docs :: "json \<Rightarrow> doc_entry list option" where
  "json_to_docs (JArr js) = those_map json_to_doc js"
| "json_to_docs _ = None"

fun json_to_idf :: "json \<Rightarrow> (string \<times> real) list option" where
  "json_to_idf (JObj kv) =
     those_map (\<lambda>(t, j). case json_number j of None \<Rightarrow> None | Some w \<Rightarrow> Some (t, w)) kv"
| "json_to_idf _ = None"

definition load_data :: "vector_store \<Rightarrow> vector_store option" where
  "load_data st = (case storage st of
       Absent \<Rightarrow> Some st
     | Corrupt \<Rightarrow> Some st
     | Stored (JObj data) \<Rightarrow>
         (case (json_to_docs (dict_get data ''documents'' (JArr [])),
                json_str_list (dict_get data ''vocabulary'' (JArr [])),
                json_to_idf (dict_get data ''idf_scores'' (JObj []))) of
            (Some ds, Some voc, Some idf) \<Rightarrow>
              Some (st\<lparr>documents := ds, vocabulary := remdups voc, idf_scores := idf\<rparr>)
          | _ \<Rightarrow> None)
     | Stored _ \<Rightarrow> Some st)"

subsection \<open>Term weights\<close>

definition calculate_tf :: "string list \<Rightarrow> (string \<times> real) list" where
  "calculate_tf toks =
     map (\<lambda>(token, count). (token, real count / real (length toks))) (counter toks)"

definition term_doc_count :: "doc_entry list \<Rightarrow> (string \<times> nat) list" where
  "term_doc_count docs =
     fold (\<lambda>doc c. fold counter_add (set_items (tokenize (content doc))) c) docs []"

definition calculate_idf :: "vector_store \<Rightarrow> vector_store" where
  "calculate_idf st =
     (if documents st = [] then st
      else st\<lparr>idf_scores :=
        map (\<lambda>(term, count). (term, ln (real (length (documents st)) / real count)))
          (term_doc_count (documents st))\<rparr>)"

subsection \<open>Insertion\<close>

text \<open>
  The loop of \<open>add_documents\<close> over the batch. \<open>uuid\<close> stands for the values
  \<open>uuid.uuid4()\<close> produces: the entry accepted after \<open>added_count\<close> others in this
  batch gets the identifier \<open>uuid added_count\<close>. The batch is typed as the
  annotation says, with string contents; then no statement of the \<open>try\<close> block
  raises (\<open>_save_data\<close> catches its own exceptions), and the \<open>except\<close> clause of
  \<open>add_documents\<close> is never entered.
\<close>

fun add_loop :: "(nat \<Rightarrow> string) \<Rightarrow> in_doc list \<Rightarrow> vector_store \<Rightarrow> nat \<Rightarrow> vector_store \<times> nat" where
  "add_loop uuid [] st added_count = (st, added_count)"
| "add_loop uuid (doc # docs) st added_count =
     (let content' = (case in_content doc of None \<Rightarrow> [] | Some c \<Rightarrow> c) in
      if strip content' = [] then add_loop uuid docs st added_count
      else
        let doc_entry = \<lparr>doc_id = uuid added_count,
                         content = content',
                         metadata = (case in_metadata doc of None \<Rightarrow> JObj [] | Some m \<Rightarrow> m),
                         tokens = tokenize content'\<rparr>
        in add_loop uuid docs
             (st\<lparr>documents := documents st @ [doc_entry],
                 vocabulary := set_update (vocabulary st) (tokens doc_entry)\<rparr>)
             (added_count + 1))"

definition add_documents ::
  "(nat \<Rightarrow> string) \<Rightarrow> write_outcome \<Rightarrow> vector_store \<Rightarrow> in_doc list \<Rightarrow> bool \<times> vector_store" where
  "add_documents uuid w st docs =
     (if docs = [] then (False, st)
      else
        let (st1, added_count) = add_loop uuid docs st 0 in
        if 0 < added_count then (True, save_data w (calculate_idf st1))
        else (False, st1))"

subsection \<open>Ranking\<close>

definition calculate_cosine_similarity ::
  "(string \<times> real) list \<Rightarrow> (string \<times> real) list \<Rightarrow> real" where
  "calculate_cosine_similarity vec1 vec2 =
     (let all_terms = set_items (map fst vec1 @ map fst vec2) in
      if all_terms = [] then 0
      else
        let dot_product = (\<Sum>term\<leftarrow>all_terms. dict_get vec1 term 0 * dict_get vec2 term 0);
            magnitude1 = sqrt (\<Sum>val\<leftarrow>map snd vec1. val ^ 2);
            magnitude2 = sqrt (\<Sum>val\<leftarrow>map snd vec2. val ^ 2)
        in if magnitude1 = 0 \<or> magnitude2 = 0 then 0
           else dot_product / (magnitude1 * magnitude2))"

text \<open>
  \<open>_get_tfidf_vector\<close> reads \<open>tf_scores[token]\<close>, which raises \<open>KeyError\<close> for a
  missing key: \<open>None\<close> is that exception.
\<close>

fun tfidf_loop ::
  "(string \<times> real) list \<Rightarrow> (string \<times> real) list \<Rightarrow> string list \<Rightarrow> (string \<times> real) list
     \<Rightarrow> (string \<times> real) list option" where
  "tfidf_loop idf tf_scores [] tfidf_vector = Some tfidf_vector"
| "tfidf_loop idf tf_scores (token # toks) tfidf_vector =
     (case map_of idf token of
        None \<Rightarrow> tfidf_loop idf tf_scores toks tfidf_vector
      | Some w \<Rightarrow>
          (case map_of tf_scores token of
             None \<Rightarrow> None
           | Some f \<Rightarrow> tfidf_loop idf tf_scores toks (dict_set token (f * w) tfidf_vector)))"

definition get_tfidf_vector :: "vector_store \<Rightarrow> string list \<Rightarrow> (string \<times> real) list option" where
  "get_tfidf_vector st toks = tfidf_loop (idf_scores st) (calculate_tf toks) toks []"

record search_result =
  res_content :: string
  res_metadata :: json
  score :: real

text \<open>
  The loop of \<open>similarity_search\<close> over the stored documents; an exception leaves
  the loop (\<open>None\<close>).
\<close>

fun similarity_loop ::
  "vector_store \<Rightarrow> (string \<times> real) list \<Rightarrow> doc_entry list \<Rightarrow> search_result list
     \<Rightarrow> search_result list option" where
  "similarity_loop st query_tfidf [] similarities = Some similarities"
| "similarity_loop st query_tfidf (doc # docs) similarities =
     (case get_tfidf_vector st (tokens doc) of
        None \<Rightarrow> None
      | Some doc_tfidf \<Rightarrow>
          (let similarity = calculate_cosine_similarity query_tfidf doc_tfidf in
           if 0 < similarity
           then similarity_loop st query_tfidf docs
                  (similarities @ [\<lparr>res_content = content doc, res_metadata = metadata doc,
                                     score = similarity\<rparr>])
           else similarity_loop st query_tfidf docs similarities))"

text \<open>
  \<open>list.sort(key=..., reverse=True)\<close> is stable: elements with equal keys keep
  their order, and the keys descend. That is a stable ascending sort on the negated
  key, which \<open>sort_key\<close> is. The \<open>except\<close> clause of \<open>similarity_search\<close> returns
  the empty list.
\<close>

definition similarity_search :: "vector_store \<Rightarrow> string \<Rightarrow> int \<Rightarrow> search_result list" where
  "similarity_search st query top_k =
     (if strip query = [] then []
      else if documents st = [] then []
      else
        let query_tokens = tokenize query in
        if query_tokens = [] then []
        else
          (case get_tfidf_vector st query_tokens of
             None \<Rightarrow> []
           | Some query_tfidf \<Rightarrow>
               (case similarity_loop st query_tfidf (documents st) [] of
                  None \<Rightarrow> []
                | Some similarities \<Rightarrow>
                    slice_to (sort_key (\<lambda>x. - score x) similarities) top_k)))"

section \<open>document\_processor.py\<close>

record document_processor =
  chunk_size :: int
  chunk_overlap :: int

definition default_processor :: document_processor where
  \<comment> \<open>\<open>DocumentProcessor()\<close>\<close>
  "default_processor = \<lparr>chunk_size = 800, chunk_overlap = 100\<rparr>"

definition slice_from :: "'a list \<Rightarrow> int \<Rightarrow> 'a list" where
  \<comment> \<open>\<open>s[i:]\<close>\<close>
  "slice_from xs i = (if 0 \<le> i then drop (nat i) xs else drop (nat (int (length xs) + i)) xs)"

subsection \<open>Sentence splitting\<close>

text \<open>
  \<open>re.split(r'(?<=[.!?])\s+', text)\<close>. A separator is a maximal run of whitespace
  whose first character comes right after one of \<open>.\<close>, \<open>!\<close>, \<open>?\<close>; a run of
  whitespace after any other character is not a separator, since inside the run the
  character before is whitespace. The pieces between the separators are returned,
  the last one possibly empty. The first argument is the piece being read.
\<close>

definition ends_sentence :: "string \<Rightarrow> bool" where
  "ends_sentence cur = (cur \<noteq> [] \<and> last cur \<in> {CHR ''.'', CHR ''!'', CHR ''?''})"

function split_sentences :: "string \<Rightarrow> string \<Rightarrow> string list" where
  "split_sentences cur [] = [cur]"
| "split_sentences cur (c # cs) =
     (if isspace c \<and> ends_sentence cur
      then cur # split_sentences [] (dropWhile isspace cs)
      else split_sentences (cur @ [c]) cs)"
  by pat_completeness auto
termination
  by (relation "measure (\<lambda>(cur, s). length s)")
     (auto simp: less_Suc_eq_le length_dropWhile_le)

subsection \<open>Chunking\<close>

definition get_overlap_text :: "document_processor \<Rightarrow> string \<Rightarrow> string" where
  "get_overlap_text cfg text =
     (if int (length text) \<le> chunk_overlap cfg then text
      else
        let overlap_start = int (length text) - chunk_overlap cfg;
            sentences = split_sentences [] (slice_from text overlap_start)
        in if 1 < length sentences
           then (if last sentences \<noteq> [] then last sentences else slice_from text overlap_start)
           else slice_from text overlap_start)"

text \<open>
  The loop of \<open>_split_text_into_chunks\<close> over the sentences, with the variables
  \<open>chunks\<close>, \<open>current_chunk\<close> and \<open>current_length\<close>.
\<close>

fun chunk_loop ::
  "document_processor \<Rightarrow> string list \<Rightarrow> string list \<Rightarrow> string \<Rightarrow> int \<Rightarrow> string list \<times> string" where
  "chunk_loop cfg [] chunks current_chunk current_length = (chunks, current_chunk)"
| "chunk_loop cfg (sentence # rest) chunks current_chunk current_length =
     (let sentence' = strip sentence in
      if sentence' = [] then chunk_loop cfg rest chunks current_chunk current_length
      else
        let sentence_length = int (length sentence') in
        if current_length + sentence_length > chunk_size cfg \<and> current_chunk \<noteq> []
        then
          let overlap_text = get_overlap_text cfg current_chunk;
              current_chunk' = overlap_text @ '' '' @ sentence'
          in chunk_loop cfg rest (chunks @ [strip current_chunk]) current_chunk'
               (int (length current_chunk'))
        else
          let current_chunk' =
                (if current_chunk \<noteq> [] then current_chunk @ '' '' @ sentence' else sentence')
          in chunk_loop cfg rest chunks current_chunk'
               (current_length + sentence_length + (if current_chunk' \<noteq> [] then 1 else 0)))"

definition split_text_into_chunks :: "document_processor \<Rightarrow> string \<Rightarrow> string list" where
  "split_text_into_chunks cfg text =
     (if text = [] then []
      else
        let (chunks, current_chunk) = chunk_loop cfg (split_sentences [] text) [] [] 0
        in if strip current_chunk \<noteq> [] then chunks @ [strip current_chunk] else chunks)"

subsection \<open>Page regions\<close>

text \<open>
  \<open>re.split(r'\[PAGE (\d+)\]', text)\<close>: the text before the first marker, then for
  each marker its digits and the text up to the next marker. \<open>\d+\<close> is greedy and
  the character after a maximal run of digits is not a digit, so a marker is
  \<open>[PAGE\<close>, a space, a maximal non-empty run of digits and \<open>]\<close>.
\<close>

definition match_page_marker :: "string \<Rightarrow> (string \<times> string) option" where
  "match_page_marker s =
     (if take 6 s = ''[PAGE '' then
        let ds = takeWhile isdigit (drop 6 s); r = dropWhile isdigit (drop 6 s)
        in (case r of
              [] \<Rightarrow> None
            | c # r' \<Rightarrow> if ds \<noteq> [] \<and> c = CHR '']'' then Some (ds, r') else None)
      else None)"

lemma match_page_marker_shorter:
  "match_page_marker s = Some (ds, r) \<Longrightarrow> length r < length s"
proof -
  assume a: "match_page_marker s = Some (ds, r)"
  then obtain c where "dropWhile isdigit (drop 6 s) = c # r"
    by (auto simp: match_page_marker_def Let_def split: if_splits list.splits)
  then have "length (c # r) \<le> length (drop 6 s)"
    by (metis length_dropWhile_le)
  then show ?thesis by simp
qed

function split_pages :: "string \<Rightarrow> string \<Rightarrow> string list" where
  "split_pages cur [] = [cur]"
| "split_pages cur (c # cs) =
     (case match_page_marker (c # cs) of
        Some (ds, r) \<Rightarrow> cur # ds # split_pages [] r
      | None \<Rightarrow> split_pages (cur @ [c]) cs)"
  by pat_completeness auto
termination
  by (relation "measure (\<lambda>(cur, s). length s)")
     (auto dest: match_page_marker_shorter)

text \<open>
  \<open>int(s)\<close> for a string of decimal digits. CPython 3.11 in its default
  configuration refuses a string of more than 4300 digits with \<open>ValueError\<close>;
  \<open>None\<close> is that exception, which \<open>create_chunks\<close> does not catch.
\<close>

definition int_max_str_digits :: nat where
  "int_max_str_digits = 4300"

definition int_of_digits :: "string \<Rightarrow> int" where
  "int_of_digits ds = foldl (\<lambda>acc c. 10 * acc + (int (code c) - 48)) 0 ds"

definition py_int :: "string \<Rightarrow> int option" where
  "py_int ds = (if int_max_str_digits < length ds then None else Some (int_of_digits ds))"

definition make_chunk :: "string \<Rightarrow> json \<Rightarrow> string \<Rightarrow> in_doc" where
  "make_chunk filename page chunk_text =
     \<lparr>in_content = Some (strip chunk_text),
      in_metadata = Some (JObj [(''filename'', JStr filename), (''page'', page),
                                (''chunk_length'', JInt (int (length chunk_text)))])\<rparr>"

definition keep_chunks :: "string \<Rightarrow> json \<Rightarrow> string list \<Rightarrow> in_doc list" where
  \<comment> \<open>the inner loop of \<open>create_chunks\<close>: only chunks of more than 50 characters\<close>
  "keep_chunks filename page chunk_texts =
     map (make_chunk filename page) (filter (\<lambda>chunk_text. 50 < length (strip chunk_text)) chunk_texts)"

text \<open>
  The loop \<open>for i in range(1, len(pages), 2)\<close>, run on \<open>pages[1:]\<close>: the elements
  come in pairs, the digits of a marker and the text after it.
\<close>

fun page_loop ::
  "document_processor \<Rightarrow> string \<Rightarrow> string list \<Rightarrow> in_doc list \<Rightarrow> in_doc list option" where
  "page_loop cfg filename (num # body # rest) chunks =
     (case py_int num of
        None \<Rightarrow> None
      | Some page_num \<Rightarrow>
          (let page_text = strip body in
           if page_text \<noteq> []
           then page_loop cfg filename rest
                  (chunks @ keep_chunks filename (JInt page_num)
                              (split_text_into_chunks cfg page_text))
           else page_loop cfg filename rest chunks))"
| "page_loop cfg filename [num] chunks = Some chunks"
| "page_loop cfg filename [] chunks = Some chunks"

definition page_region_chunks ::
  "document_processor \<Rightarrow> string \<Rightarrow> string \<Rightarrow> in_doc list option" where
  \<comment> \<open>\<open>chunks\<close> when the loop over the page markers has ended\<close>
  "page_region_chunks cfg text filename = page_loop cfg filename (tl (split_pages [] text)) []"

definition create_chunks :: "document_processor \<Rightarrow> string \<Rightarrow> string \<Rightarrow> in_doc list option" where
  "create_chunks cfg text filename =
     (if text = [] then Some []
      else
        (case page_region_chunks cfg text filename of
           None \<Rightarrow> None
         | Some chunks \<Rightarrow>
             if chunks = []
             then Some (keep_chunks filename (JStr ''N/A'') (split_text_into_chunks cfg text))
             else Some chunks))"

section \<open>Notions used in the statements\<close>

text \<open>
  The TF-IDF vector \<open>_get_tfidf_vector\<close> returns (it never raises, see
  \<open>get_tfidf_vector_eq\<close>), the cosine similarity of a stored chunk with a query,
  the result dict \<open>similarity_search\<close> builds for a chunk, and the results of all
  chunks of positive similarity in the order the chunks were inserted.
\<close>

definition tfidf_vector :: "vector_store \<Rightarrow> string list \<Rightarrow> (string \<times> real) list" where
  "tfidf_vector st toks = (case get_tfidf_vector st toks of None \<Rightarrow> [] | Some v \<Rightarrow> v)"

definition chunk_similarity :: "vector_store \<Rightarrow> string \<Rightarrow> doc_entry \<Rightarrow> real" where
  "chunk_similarity st query doc =
     calculate_cosine_similarity (tfidf_vector st (tokenize query)) (tfidf_vector st (tokens doc))"

definition result_of :: "vector_store \<Rightarrow> string \<Rightarrow> doc_entry \<Rightarrow> search_result" where
  "result_of st query doc =
     \<lparr>res_content = content doc, res_metadata = metadata doc, score = chunk_similarity st query doc\<rparr>"

definition candidates :: "vector_store \<Rightarrow> string \<Rightarrow> search_result list" where
  "candidates st query =
     map (result_of st query) (filter (\<lambda>doc. 0 < chunk_similarity st query doc) (documents st))"

text \<open>The number of stored documents whose token set contains a term.\<close>

definition document_count_containing :: "doc_entry list \<Rightarrow> string \<Rightarrow> nat" where
  "document_count_containing docs term =
     length (filter (\<lambda>doc. term \<in> set (tokenize (content doc))) docs)"

text \<open>
  A document of a batch that \<open>add_documents\<close> accepts: its content is not blank.
\<close>

definition has_text :: "in_doc \<Rightarrow> bool" where
  "has_text doc = (strip (case in_content doc of None \<Rightarrow> [] | Some c \<Rightarrow> c) \<noteq> [])"

text \<open>The value of a \<open>Counter\<close> at a key, and the table \<open>_calculate_idf\<close> assigns.\<close>

definition count_of :: "('k \<times> nat) list \<Rightarrow> 'k \<Rightarrow> nat" where
  "count_of c k = (case map_of c k of None \<Rightarrow> 0 | Some n \<Rightarrow> n)"

definition idf_table :: "doc_entry list \<Rightarrow> (string \<times> real) list" where
  "idf_table docs =
     map (\<lambda>(term, count). (term, ln (real (length docs) / real count))) (term_doc_count docs)"

text \<open>The page a chunk of \<open>create_chunks\<close> is tagged with.\<close>

definition chunk_page :: "in_doc \<Rightarrow> json option" where
  "chunk_page c = (case in_metadata c of Some (JObj kv) \<Rightarrow> map_of kv ''page'' | _ \<Rightarrow> None)"

text \<open>
  The sentences the loop of \<open>_split_text_into_chunks\<close> works on: the pieces of
  the split, stripped, without the empty ones.
\<close>

definition sentences_of :: "string \<Rightarrow> string list" where
  "sentences_of text = filter (\<lambda>s. s \<noteq> []) (map strip (split_sentences [] text))"

definition trimmed :: "string \<Rightarrow> bool" where
  "trimmed s = (s \<noteq> [] \<and> \<not> isspace (hd s) \<and> \<not> isspace (last s))"



text \<open>
  The overlap window of a buffer is what \<open>_get_overlap_text\<close> cuts off when the
  buffer is longer than \<open>chunk_overlap\<close>: \<open>text[overlap_start:]\<close>, the last
  \<open>chunk_overlap\<close> characters. The window holds a sentence boundary when the
  split of the window yields more than one piece, which is the test
  \<open>len(sentences) > 1\<close> of the source; only then the overlap snaps to a sentence.
\<close>

definition overlap_window :: "document_processor \<Rightarrow> string \<Rightarrow> string" where
  "overlap_window cfg buf = slice_from buf (int (length buf) - chunk_overlap cfg)"

definition window_has_boundary :: "document_processor \<Rightarrow> string \<Rightarrow> bool" where
  "window_has_boundary cfg buf = (1 < length (split_sentences [] (overlap_window cfg buf)))"

section \<open>Example data\<close>

text \<open>
  The chunk of the single-document scenario, as \<open>create_chunks\<close> would tag it
  for page 2 of a file, and the store that holds exactly this chunk after one
  successful \<open>add_documents\<close> on a fresh collection.
\<close>

definition scenario_chunk :: in_doc where
  "scenario_chunk = make_chunk ''manual.pdf'' (JInt 2) ''Safety protocols require PPE at all times.''"

definition scenario_store :: vector_store where
  "scenario_store = snd (add_documents (\<lambda>n. ''chunk-id'') Written (init_store Absent) [scenario_chunk])"

text \<open>
  Two small processors and texts: one whose overlap window holds a sentence
  boundary, one whose overlap is larger than its chunk size.
\<close>

definition snapping_processor :: document_processor where
  "snapping_processor = \<lparr>chunk_size = 30, chunk_overlap = 20\<rparr>"

definition snapping_text :: string where
  "snapping_text = ''Wear a helmet. Stay alert. Report every incident to the supervisor at once.''"

definition oversized_overlap_processor :: document_processor where
  "oversized_overlap_processor = \<lparr>chunk_size = 10, chunk_overlap = 100\<rparr>"

definition glove_text :: string where
  "glove_text = ''Wear a helmet. Wear boots. Wear gloves.''"



section \<open>Properties of the ranker on degenerate input\<close>

lemma strip_all_space: "\<forall>c\<in>set s. isspace c \<Longrightarrow> strip s = []"
  by (auto simp: strip_def lstrip_def rstrip_def dropWhile_eq_Nil_conv dest: set_dropWhileD)

text \<open>
  Claim C8. For every store, \<open>similarity_search\<close> returns the empty list when the
  query is empty or consists of whitespace only, when the query yields no token,
  and when the store holds no document. The function is total: no branch raises.
\<close>

theorem similarity_search_nothing_to_retrieve:
  "(\<forall>c\<in>set query. isspace c) \<or> tokenize query = [] \<or> documents st = []
     \<Longrightarrow> similarity_search st query top_k = []"
  by (auto simp: similarity_search_def strip_all_space Let_def)

theorem similarity_search_nothing_to_retrieve_witness:
  "list_all isspace ''   '' \<and> similarity_search scenario_store ''   '' 5 = []"
  using similarity_search_nothing_to_retrieve [of "''   ''" scenario_store 5]
  by (simp add: isspace_def code_def)

section \<open>The ranker computes what its loops say\<close>

lemma counter_add_keys: "fst ` set (counter_add k c) = insert k (fst ` set c)"
  by (induction k c rule: counter_add.induct) auto

lemma fold_counter_add_keys: "fst ` set (fold counter_add xs c) = set xs \<union> fst ` set c"
  by (induction xs arbitrary: c) (auto simp: counter_add_keys)

lemma calculate_tf_keys: "fst ` set (calculate_tf toks) = set toks"
proof -
  have "fst ` set (calculate_tf toks) = fst ` set (counter toks)"
    by (force simp: calculate_tf_def)
  then show ?thesis by (simp add: counter_def fold_counter_add_keys)
qed

lemma tfidf_loop_total:
  "set toks \<subseteq> fst ` set tf \<Longrightarrow> \<exists>v. tfidf_loop idf tf toks acc = Some v"
proof (induction toks arbitrary: acc)
  case Nil
  then show ?case by simp
next
  case (Cons t toks)
  then have "map_of tf t \<noteq> None" by (simp add: map_of_eq_None_iff)
  then obtain f where "map_of tf t = Some f" by blast
  with Cons show ?case by (simp split: option.splits)
qed

text \<open>\<open>tf_scores[token]\<close> never raises: every token is a key of its own counter.\<close>

lemma get_tfidf_vector_total: "\<exists>v. get_tfidf_vector st toks = Some v"
  unfolding get_tfidf_vector_def by (rule tfidf_loop_total) (simp add: calculate_tf_keys)

lemma get_tfidf_vector_eq: "get_tfidf_vector st toks = Some (tfidf_vector st toks)"
  using get_tfidf_vector_total [of st toks] by (auto simp: tfidf_vector_def)

lemma similarity_loop_eq:
  "similarity_loop st qv docs acc =
     Some (acc @ map (\<lambda>doc. \<lparr>res_content = content doc, res_metadata = metadata doc,
                               score = calculate_cosine_similarity qv (tfidf_vector st (tokens doc))\<rparr>)
                  (filter (\<lambda>doc. 0 < calculate_cosine_similarity qv (tfidf_vector st (tokens doc))) docs))"
  by (induction docs arbitrary: acc) (simp_all add: get_tfidf_vector_eq Let_def)

lemma similarity_search_eq:
  "similarity_search st query top_k =
     (if strip query = [] \<or> documents st = [] \<or> tokenize query = [] then []
      else slice_to (sort_key (\<lambda>x. - score x) (candidates st query)) top_k)"
proof -
  have r: "result_of st query = (\<lambda>doc. \<lparr>res_content = content doc, res_metadata = metadata doc,
      score = calculate_cosine_similarity (tfidf_vector st (tokenize query))
                (tfidf_vector st (tokens doc))\<rparr>)"
    by (simp add: fun_eq_iff result_of_def chunk_similarity_def)
  show ?thesis
    by (simp add: similarity_search_def Let_def get_tfidf_vector_eq similarity_loop_eq
          candidates_def r chunk_similarity_def)
qed

section \<open>Order, size and ties of the results\<close>

lemma slice_to_prefix: "prefix (slice_to xs k) xs"
  by (simp add: slice_to_def take_is_prefix)

lemma filter_prefix: "prefix xs ys \<Longrightarrow> prefix (filter P xs) (filter P ys)"
  by (auto simp: prefix_def)

lemma sorted_wrt_prefix: "prefix xs ys \<Longrightarrow> sorted_wrt R ys \<Longrightarrow> sorted_wrt R xs"
  by (auto simp: prefix_def sorted_wrt_append)

lemma sorted_desc_sort_key:
  "sorted_wrt (\<lambda>a b. score b \<le> score a) (sort_key (\<lambda>x. - score x) (xs :: search_result list))"
proof -
  have "sorted (map (\<lambda>x. - score x) (sort_key (\<lambda>x. - score x) xs))" by (rule sorted_sort_key)
  then show ?thesis by (simp add: sorted_map)
qed

text \<open>
  Claim C5. The results of \<open>similarity_search\<close> descend by score; for a count
  \<open>top_k \<ge> 0\<close> there are at most \<open>top_k\<close> of them; and for every score \<open>v\<close> the
  results of score \<open>v\<close> are, in this order, an initial segment of the chunks of
  score \<open>v\<close> in the order of their insertion into the corpus, so that results of
  equal score keep the insertion order of their chunks.
\<close>

theorem similarity_search_ranked_stable_bounded:
  "sorted_wrt (\<lambda>a b. score b \<le> score a) (similarity_search st query top_k) \<and>
   (0 \<le> top_k \<longrightarrow> int (length (similarity_search st query top_k)) \<le> top_k) \<and>
   (\<forall>v. prefix (filter (\<lambda>r. score r = v) (similarity_search st query top_k))
               (filter (\<lambda>r. score r = v) (candidates st query)))"
proof (cases "strip query = [] \<or> documents st = [] \<or> tokenize query = []")
  case True
  then show ?thesis by (simp add: similarity_search_eq)
next
  case False
  let ?s = "sort_key (\<lambda>x. - score x) (candidates st query)"
  have eq: "similarity_search st query top_k = slice_to ?s top_k"
    using False by (simp add: similarity_search_eq)
  have 1: "sorted_wrt (\<lambda>a b. score b \<le> score a) (slice_to ?s top_k)"
    by (rule sorted_wrt_prefix [OF slice_to_prefix sorted_desc_sort_key])
  have 2: "0 \<le> top_k \<longrightarrow> int (length (slice_to ?s top_k)) \<le> top_k"
    by (auto simp: slice_to_def)
  have 3: "prefix (filter (\<lambda>r. score r = v) (slice_to ?s top_k))
                  (filter (\<lambda>r. score r = v) (candidates st query))" for v
  proof -
    have "filter (\<lambda>r. - score r = - v) ?s = filter (\<lambda>r. - score r = - v) (candidates st query)"
      by (rule sort_key_stable)
    then have "filter (\<lambda>r. score r = v) ?s = filter (\<lambda>r. score r = v) (candidates st query)"
      by simp
    then show ?thesis using filter_prefix [OF slice_to_prefix, of "\<lambda>r. score r = v" ?s top_k]
      by simp
  qed
  show ?thesis unfolding eq using 1 2 3 by blast
qed

theorem similarity_search_ranked_stable_bounded_witness:
  "sorted_wrt (\<lambda>a b. score b \<le> score a) (similarity_search scenario_store ''safety'' 5) \<and>
   int (length (similarity_search scenario_store ''safety'' 5)) \<le> 5"
  using similarity_search_ranked_stable_bounded [of scenario_store "''safety''" 5] by simp

section \<open>Chunks of similarity zero\<close>

lemma insort_key_map_commute:
  "insort_key f (r x) (map r ys) = map r (insort_key (\<lambda>y. f (r y)) x ys)"
  by (induction ys) auto

lemma sort_key_map_commute: "sort_key f (map r xs) = map r (sort_key (\<lambda>y. f (r y)) xs)"
  by (induction xs) (auto simp: insort_key_map_commute)

lemma slice_to_map: "slice_to (map r xs) k = map r (slice_to xs k)"
  by (simp add: slice_to_def take_map)

lemma set_slice_to: "set (slice_to xs k) \<subseteq> set xs"
  by (auto simp: slice_to_def dest: in_set_takeD)

lemma results_from_positive_chunks:
  "\<exists>ds. similarity_search st query top_k = map (result_of st query) ds \<and>
        set ds \<subseteq> {doc \<in> set (documents st). 0 < chunk_similarity st query doc}"
proof (cases "strip query = [] \<or> documents st = [] \<or> tokenize query = []")
  case True
  then have "similarity_search st query top_k = map (result_of st query) []"
    by (simp add: similarity_search_eq)
  then show ?thesis by (metis empty_set empty_subsetI)
next
  case False
  let ?pos = "filter (\<lambda>doc. 0 < chunk_similarity st query doc) (documents st)"
  let ?ds = "slice_to (sort_key (\<lambda>doc. - score (result_of st query doc)) ?pos) top_k"
  have "similarity_search st query top_k = map (result_of st query) ?ds"
    using False by (simp add: similarity_search_eq candidates_def sort_key_map_commute slice_to_map)
  moreover have "set ?ds \<subseteq> {doc \<in> set (documents st). 0 < chunk_similarity st query doc}"
    using set_slice_to [of "sort_key (\<lambda>doc. - score (result_of st query doc)) ?pos" top_k]
    by auto
  ultimately show ?thesis by blast
qed

lemma sum_list_zero: "(\<And>x. x \<in> set xs \<Longrightarrow> f x = (0::real)) \<Longrightarrow> (\<Sum>x\<leftarrow>xs. f x) = 0"
  by (induction xs) auto

lemma cosine_no_common_term:
  "(\<forall>term. dict_get vec1 term 0 = 0 \<or> dict_get vec2 term 0 = 0)
     \<Longrightarrow> calculate_cosine_similarity vec1 vec2 = 0"
proof -
  assume a: "\<forall>term. dict_get vec1 term 0 = 0 \<or> dict_get vec2 term 0 = 0"
  have "(\<Sum>term\<leftarrow>xs. dict_get vec1 term 0 * dict_get vec2 term 0) = 0" for xs
    by (rule sum_list_zero) (use a in auto)
  then show ?thesis by (simp add: calculate_cosine_similarity_def Let_def)
qed

lemma cosine_zero_magnitude:
  "sqrt (\<Sum>val\<leftarrow>map snd vec1. val ^ 2) = 0 \<or> sqrt (\<Sum>val\<leftarrow>map snd vec2. val ^ 2) = 0
     \<Longrightarrow> calculate_cosine_similarity vec1 vec2 = 0"
  by (auto simp: calculate_cosine_similarity_def Let_def)

text \<open>
  Claim C4. Every result of \<open>similarity_search\<close> is the result of a stored chunk
  whose cosine similarity with the query vector is strictly positive, so a chunk of
  similarity exactly 0 yields no result. The similarity is 0 in particular when no
  term has a non-zero weight in both vectors, and when one of the two vectors has
  magnitude zero.
\<close>

theorem zero_similarity_excluded:
  "(\<exists>ds. similarity_search st query top_k = map (result_of st query) ds \<and>
         set ds \<subseteq> {doc \<in> set (documents st). 0 < chunk_similarity st query doc}) \<and>
   ((\<forall>term. dict_get vec1 term 0 = 0 \<or> dict_get vec2 term 0 = 0)
      \<longrightarrow> calculate_cosine_similarity vec1 vec2 = 0) \<and>
   (sqrt (\<Sum>val\<leftarrow>map snd vec1. val ^ 2) = 0 \<or> sqrt (\<Sum>val\<leftarrow>map snd vec2. val ^ 2) = 0
      \<longrightarrow> calculate_cosine_similarity vec1 vec2 = 0)"
  using results_from_positive_chunks cosine_no_common_term cosine_zero_magnitude by blast

theorem zero_similarity_excluded_witness:
  "calculate_cosine_similarity [(''safety'', 1)] [(''bridge'', 1)] = 0 \<and>
   calculate_cosine_similarity [(''ppe'', 0)] [(''ppe'', 1)] = 0"
proof -
  have 1: "\<forall>term. dict_get [(''safety'', 1::real)] term 0 = 0 \<or> dict_get [(''bridge'', 1::real)] term 0 = 0"
    by (simp add: dict_get_def)
  have 2: "sqrt (\<Sum>val\<leftarrow>map snd [(''ppe'', 0::real)]. val ^ 2) = 0 \<or>
           sqrt (\<Sum>val\<leftarrow>map snd [(''ppe'', 1::real)]. val ^ 2) = 0"
    by simp
  from 1 zero_similarity_excluded [of scenario_store "''''" 5 "[(''safety'', 1)]" "[(''bridge'', 1)]"]
  have a: "calculate_cosine_similarity [(''safety'', 1)] [(''bridge'', 1)] = 0" by blast
  from 2 zero_similarity_excluded [of scenario_store "''''" 5 "[(''ppe'', 0)]" "[(''ppe'', 1)]"]
  have b: "calculate_cosine_similarity [(''ppe'', 0)] [(''ppe'', 1)] = 0" by blast
  from a b show ?thesis by simp
qed

section \<open>Document counts and the IDF table\<close>

lemma map_of_counter_add:
  "map_of (counter_add k c) = (map_of c)(k \<mapsto> Suc (count_of c k))"
  by (induction k c rule: counter_add.induct) (auto simp: count_of_def fun_eq_iff)

lemma count_of_counter_add: "count_of (counter_add k c) t = count_of c t + (if t = k then 1 else 0)"
  by (simp add: count_of_def map_of_counter_add)

lemma distinct_counter_add: "distinct (map fst (counter_add k c)) = distinct (map fst c)"
  by (induction k c rule: counter_add.induct) (auto simp: counter_add_keys)

lemma count_of_fold_counter_add:
  "distinct xs \<Longrightarrow> count_of (fold counter_add xs c) t = count_of c t + (if t \<in> set xs then 1 else 0)"
  by (induction xs arbitrary: c) (auto simp: count_of_counter_add)

lemma distinct_fold_counter_add:
  "distinct (map fst (fold counter_add xs c)) = distinct (map fst c)"
  by (induction xs arbitrary: c) (auto simp: distinct_counter_add)

lemma count_of_doc_fold:
  "count_of (fold (\<lambda>doc c. fold counter_add (set_items (tokenize (content doc))) c) docs c) t
     = count_of c t + document_count_containing docs t"
  by (induction docs arbitrary: c)
     (auto simp: count_of_fold_counter_add set_items_def document_count_containing_def)

lemma keys_doc_fold:
  "fst ` set (fold (\<lambda>doc c. fold counter_add (set_items (tokenize (content doc))) c) docs c)
     = fst ` set c \<union> (\<Union>doc\<in>set docs. set (tokenize (content doc)))"
  by (induction docs arbitrary: c) (auto simp: fold_counter_add_keys set_items_def)

lemma distinct_doc_fold:
  "distinct (map fst (fold (\<lambda>doc c. fold counter_add (set_items (tokenize (content doc))) c) docs c))
     = distinct (map fst c)"
  by (induction docs arbitrary: c) (auto simp: distinct_fold_counter_add)

lemma count_of_term_doc_count:
  "count_of (term_doc_count docs) t = document_count_containing docs t"
  using count_of_doc_fold [of docs "[]" t] by (simp add: term_doc_count_def count_of_def)

lemma distinct_term_doc_count: "distinct (map fst (term_doc_count docs))"
  by (simp add: term_doc_count_def distinct_doc_fold)

lemma term_doc_count_keys:
  "fst ` set (term_doc_count docs) = (\<Union>doc\<in>set docs. set (tokenize (content doc)))"
  using keys_doc_fold [of docs "[]"] by (simp add: term_doc_count_def)

lemma map_of_term_doc_count:
  "t \<in> fst ` set (term_doc_count docs) \<Longrightarrow>
     map_of (term_doc_count docs) t = Some (document_count_containing docs t)"
proof -
  assume "t \<in> fst ` set (term_doc_count docs)"
  then obtain n where "map_of (term_doc_count docs) t = Some n"
    by (metis map_of_eq_None_iff not_None_eq)
  then show ?thesis using count_of_term_doc_count [of docs t] by (simp add: count_of_def)
qed

lemma idf_table_keys: "fst ` set (idf_table docs) = fst ` set (term_doc_count docs)"
  by (force simp: idf_table_def)

lemma map_of_idf_table:
  "t \<in> fst ` set (idf_table docs) \<Longrightarrow>
     map_of (idf_table docs) t
       = Some (ln (real (length docs) / real (document_count_containing docs t)))"
proof -
  assume a: "t \<in> fst ` set (idf_table docs)"
  have "map_of (idf_table docs)
      = map_option (\<lambda>count. ln (real (length docs) / real count)) \<circ> map_of (term_doc_count docs)"
    unfolding idf_table_def by (rule map_of_map)
  then show ?thesis using map_of_term_doc_count [of t docs] a by (simp add: idf_table_keys)
qed

lemma calculate_idf_eq:
  "calculate_idf st = (if documents st = [] then st else st\<lparr>idf_scores := idf_table (documents st)\<rparr>)"
  by (simp add: calculate_idf_def idf_table_def)

lemma calculate_idf_fields:
  "documents (calculate_idf s) = documents s"
  "vocabulary (calculate_idf s) = vocabulary s"
  "storage (calculate_idf s) = storage s"
  by (simp_all add: calculate_idf_eq)

section \<open>Insertion\<close>

lemma add_loop_count:
  "snd (add_loop uuid docs st n) = n + length (filter has_text docs)"
  by (induction docs arbitrary: st n) (auto simp: Let_def has_text_def)

lemma add_loop_documents_nonempty:
  "documents st \<noteq> [] \<or> filter has_text docs \<noteq> [] \<Longrightarrow> documents (fst (add_loop uuid docs st n)) \<noteq> []"
  by (induction docs arbitrary: st n) (auto simp: Let_def has_text_def)

lemma add_loop_storage: "storage (fst (add_loop uuid docs st n)) = storage st"
  by (induction docs arbitrary: st n) (auto simp: Let_def)

lemma add_documents_eq:
  "add_documents uuid w st docs =
     (if filter has_text docs = [] then (False, st)
      else (True, save_data w (calculate_idf (fst (add_loop uuid docs st 0)))))"
proof (cases "docs = []")
  case True
  then show ?thesis by (simp add: add_documents_def)
next
  case False
  obtain st1 k where l: "add_loop uuid docs st 0 = (st1, k)" by (cases "add_loop uuid docs st 0")
  have k: "k = length (filter has_text docs)" using add_loop_count [of uuid docs st 0] l by simp
  have "filter has_text docs = [] \<Longrightarrow> st1 = st"
  proof -
    assume "filter has_text docs = []"
    then have "fst (add_loop uuid docs st n) = st" for n
      by (induction docs arbitrary: n) (auto simp: Let_def has_text_def split: if_splits)
    then show ?thesis using l by (metis fst_conv)
  qed
  then show ?thesis using False l k by (auto simp: add_documents_def)
qed

lemma save_data_memory:
  "documents (save_data w s) = documents s"
  "vocabulary (save_data w s) = vocabulary s"
  "idf_scores (save_data w s) = idf_scores s"
  by (cases w; simp add: save_data_def)+

lemma save_data_open_failed: "save_data OpenFailed s = s"
  by (simp add: save_data_def)

lemma strip_scenario:
  "strip ''Safety protocols require PPE at all times.'' = ''Safety protocols require PPE at all times.''"
  by (simp add: strip_def lstrip_def rstrip_def isspace_def code_def)

lemma has_text_scenario_chunk: "has_text scenario_chunk"
  by (simp add: has_text_def scenario_chunk_def make_chunk_def strip_scenario)

lemma scenario_store_added:
  "add_documents (\<lambda>n. ''chunk-id'') Written (init_store Absent) [scenario_chunk] = (True, scenario_store)"
  using has_text_scenario_chunk by (simp add: add_documents_eq scenario_store_def)

text \<open>
  Claim C3. After a successful \<open>add_documents\<close>, every term of \<open>idf_scores\<close> is
  mapped to \<open>ln (N / n)\<close>, where \<open>N\<close> is the number of stored documents and \<open>n\<close>
  the number of stored documents whose token set contains the term, both taken
  over the whole corpus after the insertion; and running \<open>_calculate_idf\<close> again
  changes nothing.
\<close>

theorem idf_recomputed_after_insertion:
  "add_documents uuid w st docs = (True, st') \<Longrightarrow>
     (\<forall>term\<in>fst ` set (idf_scores st').
        map_of (idf_scores st') term
          = Some (ln (real (length (documents st'))
                      / real (document_count_containing (documents st') term)))) \<and>
     calculate_idf st' = st'"
proof -
  assume a: "add_documents uuid w st docs = (True, st')"
  let ?st1 = "fst (add_loop uuid docs st 0)"
  from a have ne: "filter has_text docs \<noteq> []" and st': "st' = save_data w (calculate_idf ?st1)"
    by (auto simp: add_documents_eq split: if_splits)
  have d1: "documents ?st1 \<noteq> []" using ne by (simp add: add_loop_documents_nonempty)
  have docs: "documents st' = documents ?st1"
    by (simp add: st' save_data_memory calculate_idf_fields)
  have idf: "idf_scores st' = idf_table (documents st')"
    using d1 by (simp add: st' save_data_memory calculate_idf_fields calculate_idf_eq)
  have "calculate_idf st' = st'"
    using d1 docs idf by (simp add: calculate_idf_eq)
  then show ?thesis using idf map_of_idf_table by simp
qed

theorem idf_recomputed_after_insertion_witness: "calculate_idf scenario_store = scenario_store"
  using idf_recomputed_after_insertion [OF scenario_store_added] by simp

section \<open>A failed write of the snapshot\<close>

text \<open>
  Claim C2 as stated fails: with the snapshot file not writable, inserting the
  scenario chunk into a fresh store returns \<open>True\<close>, the chunk is in memory, and no
  snapshot exists.
\<close>

theorem save_failure_reported_as_success:
  "fst (add_documents (\<lambda>n. ''chunk-id'') OpenFailed (init_store Absent) [scenario_chunk]) \<and>
   documents (snd (add_documents (\<lambda>n. ''chunk-id'') OpenFailed (init_store Absent) [scenario_chunk]))
     \<noteq> documents (init_store Absent) \<and>
   storage (snd (add_documents (\<lambda>n. ''chunk-id'') OpenFailed (init_store Absent) [scenario_chunk])) = Absent"
proof -
  let ?st1 = "fst (add_loop (\<lambda>n. ''chunk-id'') [scenario_chunk] (init_store Absent) 0)"
  have ne: "filter has_text [scenario_chunk] \<noteq> []"
    using has_text_scenario_chunk by simp
  then have eq: "add_documents (\<lambda>n. ''chunk-id'') OpenFailed (init_store Absent) [scenario_chunk]
      = (True, calculate_idf ?st1)"
    by (simp only: add_documents_eq save_data_open_failed if_False)
  have "documents ?st1 \<noteq> []"
    using ne by (rule add_loop_documents_nonempty [OF disjI2])
  moreover have "storage ?st1 = Absent"
    by (simp only: add_loop_storage) (simp add: init_store_def)
  ultimately show ?thesis
    unfolding eq by (simp add: calculate_idf_fields init_store_def)
qed

text \<open>
  Claim C2, amended. \<open>_save_data\<close> logs a failed write and returns normally, so
  \<open>add_documents\<close> does not see it: it returns \<open>True\<close> exactly when some document
  of the batch has non-blank content, whatever the outcome of the write, and the
  documents, vocabulary and IDF table in memory are those of a successful write.
  When \<open>open\<close> fails the snapshot file is left as it was.
\<close>

theorem add_documents_ignores_write_outcome:
  "fst (add_documents uuid w st docs) = (filter has_text docs \<noteq> []) \<and>
   documents (snd (add_documents uuid w st docs)) = documents (snd (add_documents uuid Written st docs)) \<and>
   vocabulary (snd (add_documents uuid w st docs)) = vocabulary (snd (add_documents uuid Written st docs)) \<and>
   idf_scores (snd (add_documents uuid w st docs)) = idf_scores (snd (add_documents uuid Written st docs)) \<and>
   storage (snd (add_documents uuid OpenFailed st docs)) = storage st"
  by (simp add: add_documents_eq save_data_memory save_data_open_failed calculate_idf_fields
        add_loop_storage)

section \<open>A corpus of a single chunk\<close>

lemma set_dict_set: "set (dict_set k v d) \<subseteq> insert (k, v) (set d)"
  by (induction k v d rule: dict_set.induct) auto

lemma tfidf_loop_zero:
  "\<forall>p\<in>set idf. snd p = 0 \<Longrightarrow> \<forall>p\<in>set acc. snd p = 0 \<Longrightarrow> tfidf_loop idf tf toks acc = Some v
     \<Longrightarrow> \<forall>p\<in>set v. snd p = 0"
proof (induction toks arbitrary: acc)
  case Nil
  then show ?case by simp
next
  case (Cons t toks)
  show ?case
  proof (cases "map_of idf t")
    case None
    with Cons show ?thesis by simp
  next
    case (Some w)
    then have "(t, w) \<in> set idf" by (rule map_of_SomeD)
    with Cons.prems(1) have w: "w = 0" by auto
    from Cons.prems(3) Some obtain f where f: "map_of tf t = Some f"
      and l: "tfidf_loop idf tf toks (dict_set t (f * w) acc) = Some v"
      by (auto split: option.splits)
    have "\<forall>p\<in>set (dict_set t (f * w) acc). snd p = 0"
      using set_dict_set [of t "f * w" acc] Cons.prems(2) w by auto
    from Cons.IH [OF Cons.prems(1) this l] show ?thesis .
  qed
qed

lemma tfidf_vector_zero:
  "\<forall>p\<in>set (idf_scores st). snd p = 0 \<Longrightarrow> \<forall>p\<in>set (tfidf_vector st toks). snd p = 0"
  using tfidf_loop_zero [of "idf_scores st" "[]" "calculate_tf toks" toks "tfidf_vector st toks"]
    get_tfidf_vector_eq [of st toks]
  by (simp add: get_tfidf_vector_def)

text \<open>When every IDF weight is 0, every vector has magnitude 0 and nothing is retrieved.\<close>

lemma zero_idf_no_results:
  assumes "\<forall>p\<in>set (idf_scores st). snd p = 0"
  shows "similarity_search st query top_k = []"
proof -
  have "chunk_similarity st query doc = 0" for doc
  proof -
    have "(\<Sum>val\<leftarrow>map snd (tfidf_vector st (tokens doc)). val ^ 2) = 0"
      by (rule sum_list_zero) (use tfidf_vector_zero [OF assms, of "tokens doc"] in auto)
    then show ?thesis by (simp add: chunk_similarity_def cosine_zero_magnitude)
  qed
  then have "candidates st query = []" by (simp add: candidates_def)
  then show ?thesis by (simp add: similarity_search_eq slice_to_def)
qed

text \<open>With one stored document every term has the weight \<open>ln (1 / 1) = 0\<close>.\<close>

lemma single_document_idf_zero:
  "p \<in> set (idf_table [doc]) \<Longrightarrow> snd p = 0"
proof -
  assume a: "p \<in> set (idf_table [doc])"
  then have k: "fst p \<in> fst ` set (idf_table [doc])" by simp
  have "distinct (map fst (idf_table [doc]))"
  proof -
    have "map fst (idf_table [doc]) = map fst (term_doc_count [doc])"
      by (simp add: idf_table_def case_prod_unfold)
    then show ?thesis by (simp add: distinct_term_doc_count)
  qed
  then have "map_of (idf_table [doc]) (fst p) = Some (snd p)" using a by simp
  moreover have "fst p \<in> set (tokenize (content doc))"
    using k by (simp add: idf_table_keys term_doc_count_keys)
  ultimately show ?thesis
    using map_of_idf_table [OF k] by (simp add: document_count_containing_def)
qed

lemma single_add_store:
  assumes "has_text doc"
  shows "\<forall>p\<in>set (idf_scores (snd (add_documents uuid w (init_store f) [doc]))). snd p = 0"
proof -
  obtain e where "documents (fst (add_loop uuid [doc] (init_store f) 0)) = [e]"
    using assms by (simp add: has_text_def Let_def init_store_def)
  then have "idf_scores (snd (add_documents uuid w (init_store f) [doc])) = idf_table [e]"
    using assms by (simp add: add_documents_eq save_data_memory calculate_idf_eq)
  then show ?thesis using single_document_idf_zero by simp
qed

text \<open>
  Claim C1 as stated fails: on the corpus of the one chunk "Safety protocols require
  PPE at all times." the query "What PPE is required?" does not return exactly one
  result.
\<close>

theorem scenario_one_returns_no_result:
  "length (similarity_search scenario_store ''What PPE is required?'' 5) \<noteq> 1"
proof -
  have "similarity_search scenario_store ''What PPE is required?'' 5 = []"
    unfolding scenario_store_def
    by (rule zero_idf_no_results, rule single_add_store) (rule has_text_scenario_chunk)
  then show ?thesis by simp
qed

text \<open>
  Claim C1, amended. On a corpus that consists of a single chunk, inserted into a
  fresh collection, \<open>similarity_search\<close> returns the empty list for every query:
  each IDF weight is \<open>ln (1 / 1) = 0\<close>, so the chunk's TF-IDF vector has magnitude
  0, its similarity is 0, and it is left out.
\<close>

theorem single_chunk_corpus_retrieves_nothing:
  "in_content doc = Some c \<Longrightarrow> strip c \<noteq> [] \<Longrightarrow>
     similarity_search (snd (add_documents uuid w (init_store f) [doc])) query top_k = []"
  by (rule zero_idf_no_results, rule single_add_store) (simp add: has_text_def)

theorem single_chunk_corpus_retrieves_nothing_witness:
  "similarity_search scenario_store ''What PPE is required?'' 5 = []"
  unfolding scenario_store_def
  by (rule single_chunk_corpus_retrieves_nothing
        [where c = "''Safety protocols require PPE at all times.''"])
     (simp_all add: scenario_chunk_def make_chunk_def strip_scenario)

section \<open>Saving and loading the snapshot\<close>

lemma those_map_inverse: "(\<And>x. x \<in> set xs \<Longrightarrow> f (g x) = Some x) \<Longrightarrow> those_map f (map g xs) = Some xs"
  by (induction xs) auto

lemma json_str_list_inverse: "those_map json_str (map JStr xs) = Some xs"
  by (simp add: those_map_inverse)

lemma json_to_doc_inverse: "json_to_doc (doc_to_json d) = Some d"
  by (simp add: doc_to_json_def json_str_list_inverse)

lemma json_to_docs_inverse: "those_map json_to_doc (map doc_to_json ds) = Some ds"
  by (simp add: those_map_inverse json_to_doc_inverse)

lemma json_to_idf_inverse:
  "those_map (\<lambda>(t, j). case json_number j of None \<Rightarrow> None | Some w \<Rightarrow> Some (t, w))
     (map (\<lambda>(t, w). (t, JFloat w)) idf) = Some idf"
  by (rule those_map_inverse) (simp add: case_prod_unfold)

text \<open>
  Claim C9. Writing the snapshot of any index state (a non-empty one in
  particular) and loading it into a freshly initialised store gives a state with
  the same list of documents, the same vocabulary as a set and the same
  \<open>idf_scores\<close>.
\<close>

theorem save_then_load_roundtrip:
  "\<exists>st'. load_data (init_store (storage (save_data Written st))) = Some st' \<and>
         documents st' = documents st \<and>
         set (vocabulary st') = set (vocabulary st) \<and>
         idf_scores st' = idf_scores st"
  by (simp add: load_data_def init_store_def save_data_def snapshot_of_def dict_get_def
        json_to_docs_inverse json_str_list_inverse json_to_idf_inverse)

section \<open>The fallback of \<open>create_chunks\<close>\<close>

lemma chunk_page_make_chunk: "chunk_page (make_chunk filename page t) = Some page"
  by (simp add: chunk_page_def make_chunk_def)

lemma chunk_page_keep_chunks: "c \<in> set (keep_chunks filename page ts) \<Longrightarrow> chunk_page c = Some page"
  by (auto simp: keep_chunks_def chunk_page_make_chunk)

lemma page_loop_pages:
  "page_loop cfg filename ps acc = Some cs
     \<Longrightarrow> (\<And>c. c \<in> set acc \<Longrightarrow> \<exists>n. chunk_page c = Some (JInt n))
     \<Longrightarrow> c \<in> set cs \<Longrightarrow> \<exists>n. chunk_page c = Some (JInt n)"
proof (induction cfg filename ps acc rule: page_loop.induct)
  case (1 cfg filename num body rest chunks)
  from "1.prems"(1) obtain page_num where p: "py_int num = Some page_num"
    by (auto split: option.splits)
  show ?case
  proof (cases "strip body \<noteq> []")
    case True
    let ?chunks = "chunks @ keep_chunks filename (JInt page_num)
                              (split_text_into_chunks cfg (strip body))"
    have l: "page_loop cfg filename rest ?chunks = Some cs"
      using "1.prems"(1) p True by (simp add: Let_def)
    have "\<exists>n. chunk_page c' = Some (JInt n)" if "c' \<in> set ?chunks" for c'
      using that "1.prems"(2) chunk_page_keep_chunks by fastforce
    from "1.IH"(1) [OF p refl True l this "1.prems"(3)] show ?thesis .
  next
    case False
    have l: "page_loop cfg filename rest chunks = Some cs"
      using "1.prems"(1) p False by (simp add: Let_def)
    from "1.IH"(2) [OF p refl False l "1.prems"(2) "1.prems"(3)] show ?thesis .
  qed
qed auto

text \<open>
  Claim C10. For a non-empty text: when the loop over the page markers ends and
  has retained no chunk (every chunk of every page region has at most 50
  characters), the result of \<open>create_chunks\<close> is the chunking of the entire text,
  page-marker lines included, and every chunk is tagged with the page \<open>N/A\<close>; when
  the loop has retained at least one chunk, the result is what the loop retained,
  the fallback does not run, and every chunk is tagged with a page number, none
  with \<open>N/A\<close>. When \<open>int\<close> refuses a page number, \<open>create_chunks\<close> raises.
\<close>

theorem create_chunks_fallback:
  "text \<noteq> [] \<Longrightarrow>
     (page_region_chunks cfg text filename = Some [] \<longrightarrow>
        create_chunks cfg text filename
          = Some (keep_chunks filename (JStr ''N/A'') (split_text_into_chunks cfg text)) \<and>
        (\<forall>c\<in>set (keep_chunks filename (JStr ''N/A'') (split_text_into_chunks cfg text)).
            chunk_page c = Some (JStr ''N/A''))) \<and>
     (\<forall>chunks. page_region_chunks cfg text filename = Some chunks \<and> chunks \<noteq> [] \<longrightarrow>
        create_chunks cfg text filename = Some chunks \<and>
        (\<forall>c\<in>set chunks. \<exists>n. chunk_page c = Some (JInt n))) \<and>
     (page_region_chunks cfg text filename = None \<longrightarrow> create_chunks cfg text filename = None)"
proof -
  assume t: "text \<noteq> []"
  have "\<exists>n. chunk_page c = Some (JInt n)"
    if "page_region_chunks cfg text filename = Some chunks" and "c \<in> set chunks" for c chunks
    using that page_loop_pages [of cfg filename "tl (split_pages [] text)" "[]" chunks c]
    by (simp add: page_region_chunks_def)
  then show ?thesis
    using t by (auto simp: create_chunks_def chunk_page_keep_chunks)
qed

lemma short_regions_retain_nothing:
  "page_region_chunks default_processor
     ''[PAGE 1] Helmets are required. [PAGE 2] Wear safety boots.'' ''a.pdf'' = Some []"
  by code_simp

lemma short_regions_fallback_chunk:
  "map in_content (keep_chunks ''a.pdf'' (JStr ''N/A'')
     (split_text_into_chunks default_processor
        ''[PAGE 1] Helmets are required. [PAGE 2] Wear safety boots.''))
   = [Some ''[PAGE 1] Helmets are required. [PAGE 2] Wear safety boots.'']"
  by code_simp

lemma long_region_retained:
  "page_region_chunks default_processor
     ''[PAGE 2] Safety protocols require PPE at all times on every construction site.'' ''a.pdf''
   = Some [make_chunk ''a.pdf'' (JInt 2)
       ''Safety protocols require PPE at all times on every construction site.'']"
  by code_simp

theorem create_chunks_fallback_witness:
  "map_option (map in_content) (create_chunks default_processor
      ''[PAGE 1] Helmets are required. [PAGE 2] Wear safety boots.'' ''a.pdf'')
     = Some [Some ''[PAGE 1] Helmets are required. [PAGE 2] Wear safety boots.''] \<and>
   create_chunks default_processor
      ''[PAGE 2] Safety protocols require PPE at all times on every construction site.'' ''a.pdf''
     = Some [make_chunk ''a.pdf'' (JInt 2)
         ''Safety protocols require PPE at all times on every construction site.'']"
proof -
  have ne1: "''[PAGE 1] Helmets are required. [PAGE 2] Wear safety boots.'' \<noteq> []" by simp
  have ne2: "''[PAGE 2] Safety protocols require PPE at all times on every construction site.'' \<noteq> []"
    by simp
  from create_chunks_fallback [OF ne1, of default_processor "''a.pdf''"] short_regions_retain_nothing
  have "create_chunks default_processor
      ''[PAGE 1] Helmets are required. [PAGE 2] Wear safety boots.'' ''a.pdf''
     = Some (keep_chunks ''a.pdf'' (JStr ''N/A'') (split_text_into_chunks default_processor
        ''[PAGE 1] Helmets are required. [PAGE 2] Wear safety boots.''))"
    by blast
  then have a: "map_option (map in_content) (create_chunks default_processor
      ''[PAGE 1] Helmets are required. [PAGE 2] Wear safety boots.'' ''a.pdf'')
     = Some [Some ''[PAGE 1] Helmets are required. [PAGE 2] Wear safety boots.'']"
    by (simp only: short_regions_fallback_chunk option.map)
  have "[make_chunk ''a.pdf'' (JInt 2)
         ''Safety protocols require PPE at all times on every construction site.''] \<noteq> []"
    by simp
  with create_chunks_fallback [OF ne2, of default_processor "''a.pdf''"] long_region_retained
  have b: "create_chunks default_processor
      ''[PAGE 2] Safety protocols require PPE at all times on every construction site.'' ''a.pdf''
     = Some [make_chunk ''a.pdf'' (JInt 2)
         ''Safety protocols require PPE at all times on every construction site.'']"
    by blast
  from a b show ?thesis by (rule conjI)
qed

section \<open>Stripping and sentence splitting\<close>

lemma rstrip_prefix: "prefix (rstrip s) s"
  using suffix_dropWhile [of isspace "rev s"] by (simp add: rstrip_def suffix_to_prefix)

lemma lstrip_suffix: "suffix (lstrip s) s"
  by (simp add: lstrip_def suffix_dropWhile)

lemma rstrip_last: "rstrip s \<noteq> [] \<Longrightarrow> \<not> isspace (last (rstrip s))"
  using hd_dropWhile [of isspace "rev s"] by (simp add: rstrip_def last_rev)

lemma rstrip_id: "s = [] \<or> \<not> isspace (last s) \<Longrightarrow> rstrip s = s"
proof -
  assume "s = [] \<or> \<not> isspace (last s)"
  then have "dropWhile isspace (rev s) = rev s"
    by (auto simp: dropWhile_eq_self_iff hd_rev)
  then show ?thesis by (simp add: rstrip_def)
qed

lemma lstrip_id: "s = [] \<or> \<not> isspace (hd s) \<Longrightarrow> lstrip s = s"
  by (auto simp: lstrip_def dropWhile_eq_self_iff)

lemma trimmed_strip: "strip s \<noteq> [] \<Longrightarrow> trimmed (strip s)"
proof -
  assume ne: "strip s \<noteq> []"
  let ?y = "lstrip s"
  have y: "?y \<noteq> []" using ne by (auto simp: strip_def rstrip_def)
  then have hy: "\<not> isspace (hd ?y)" unfolding lstrip_def by (rule hd_dropWhile)
  obtain zs where "?y = rstrip ?y @ zs" using rstrip_prefix [of ?y] by (auto simp: prefix_def)
  then have "hd ?y = hd (rstrip ?y)" using ne by (metis hd_append2 strip_def)
  then show ?thesis using ne hy rstrip_last [of ?y] by (simp add: trimmed_def strip_def)
qed

lemma strip_trimmed: "trimmed s \<Longrightarrow> strip s = s"
  by (simp add: trimmed_def strip_def lstrip_id rstrip_id)

lemma length_strip_le: "length (strip s) \<le> length s"
proof -
  have "length (strip s) \<le> length (lstrip s)"
    using length_dropWhile_le [of isspace "rev (lstrip s)"] by (simp add: strip_def rstrip_def)
  also have "\<dots> \<le> length s" by (simp add: lstrip_def length_dropWhile_le)
  finally show ?thesis .
qed

lemma strip_space_Cons: "isspace c \<Longrightarrow> strip (c # s) = strip s"
  by (simp add: strip_def lstrip_def)

lemma isspace_blank: "isspace CHR '' ''"
  by (simp add: isspace_def code_def)

lemma lstrip_ends_nonspace:
  "x \<noteq> [] \<Longrightarrow> \<not> isspace (last x) \<Longrightarrow> lstrip x \<noteq> [] \<and> last (lstrip x) = last x"
proof -
  assume x: "x \<noteq> []" and l: "\<not> isspace (last x)"
  have "last x \<in> set x" using x by simp
  then have ne: "dropWhile isspace x \<noteq> []" using l by (auto simp: dropWhile_eq_Nil_conv)
  obtain zs where "x = zs @ dropWhile isspace x"
    using suffix_dropWhile [of isspace x] by (auto simp: suffix_def)
  then have "last x = last (dropWhile isspace x)" using ne by (metis last_appendR)
  then show ?thesis using ne by (simp add: lstrip_def)
qed

lemma strip_ends_nonspace: "x = [] \<or> \<not> isspace (last x) \<Longrightarrow> strip x = lstrip x"
proof (cases "x = []")
  case True
  then show ?thesis by (simp add: strip_def lstrip_def rstrip_def)
next
  case False
  assume "x = [] \<or> \<not> isspace (last x)"
  then have "\<not> isspace (last x)" using False by simp
  then show ?thesis using lstrip_ends_nonspace [OF False] by (simp add: strip_def rstrip_id)
qed

lemma split_sentences_nonempty: "split_sentences cur s \<noteq> []"
  by (induction cur s rule: split_sentences.induct) auto

lemma split_sentences_piece_length:
  "p \<in> set (split_sentences cur s) \<Longrightarrow> length p \<le> length cur + length s"
proof (induction cur s arbitrary: p rule: split_sentences.induct)
  case (1 cur)
  then show ?case by simp
next
  case (2 cur c cs)
  show ?case
  proof (cases "isspace c \<and> ends_sentence cur")
    case True
    with 2 have "p = cur \<or> p \<in> set (split_sentences [] (dropWhile isspace cs))" by simp
    then show ?thesis
    proof
      assume "p = cur" then show ?thesis by simp
    next
      assume "p \<in> set (split_sentences [] (dropWhile isspace cs))"
      from "2.IH"(1) [OF True this] have "length p \<le> length (dropWhile isspace cs)" by simp
      also have "\<dots> \<le> length cs" by (rule length_dropWhile_le)
      finally show ?thesis by simp
    qed
  next
    case False
    with 2 have "p \<in> set (split_sentences (cur @ [c]) cs)" by auto
    from "2.IH"(2) [OF False this] show ?thesis by simp
  qed
qed



lemma get_overlap_text_length:
  "int (length (get_overlap_text cfg x)) \<le> max 0 (chunk_overlap cfg)"
proof (cases "int (length x) \<le> chunk_overlap cfg")
  case True
  then show ?thesis by (simp add: get_overlap_text_def)
next
  case False
  let ?w = "slice_from x (int (length x) - chunk_overlap cfg)"
  have lw: "int (length ?w) \<le> max 0 (chunk_overlap cfg)"
    using False by (auto simp: slice_from_def)
  have "last (split_sentences [] ?w) \<in> set (split_sentences [] ?w)"
    by (simp add: split_sentences_nonempty)
  then have "length (last (split_sentences [] ?w)) \<le> length ?w"
    using split_sentences_piece_length [of _ "[]" ?w] by fastforce
  then show ?thesis using False lw by (simp add: get_overlap_text_def Let_def)
qed


section \<open>The length of a chunk\<close>

lemma chunk_loop_skip:
  "strip sentence = [] \<Longrightarrow>
     chunk_loop cfg (sentence # rest) chunks cur n = chunk_loop cfg rest chunks cur n"
  by (simp add: Let_def)

lemma chunk_loop_emit:
  "strip sentence \<noteq> [] \<Longrightarrow> n + int (length (strip sentence)) > chunk_size cfg \<and> cur \<noteq> [] \<Longrightarrow>
     chunk_loop cfg (sentence # rest) chunks cur n =
       chunk_loop cfg rest (chunks @ [strip cur])
         (get_overlap_text cfg cur @ '' '' @ strip sentence)
         (int (length (get_overlap_text cfg cur @ '' '' @ strip sentence)))"
  by (simp add: Let_def)

lemma chunk_loop_append:
  "strip sentence \<noteq> [] \<Longrightarrow> \<not> (n + int (length (strip sentence)) > chunk_size cfg \<and> cur \<noteq> []) \<Longrightarrow>
     chunk_loop cfg (sentence # rest) chunks cur n =
       chunk_loop cfg rest chunks
         (if cur \<noteq> [] then cur @ '' '' @ strip sentence else strip sentence)
         (n + int (length (strip sentence)) + 1)"
  by (auto simp: Let_def)

lemma get_overlap_text_negative: "chunk_overlap cfg < 0 \<Longrightarrow> get_overlap_text cfg x = []"
proof -
  assume a: "chunk_overlap cfg < 0"
  then have "slice_from x (int (length x) - chunk_overlap cfg) = []"
    by (simp add: slice_from_def)
  then show ?thesis using a by (simp add: get_overlap_text_def Let_def)
qed

lemma chunk_loop_bound:
  assumes "chunk_loop cfg sents chunks cur n = (chunks', cur')"
    and "\<And>s. s \<in> set sents \<Longrightarrow> strip s \<noteq> [] \<Longrightarrow> strip s \<in> S"
    and "\<And>c. c \<in> set chunks \<Longrightarrow>
           c \<in> S \<or> (\<exists>s\<in>S. int (length c) \<le> chunk_size cfg + 1 \<or>
                              int (length c) \<le> chunk_overlap cfg + 1 + int (length s))"
    and "cur \<noteq> [] \<Longrightarrow>
           strip cur \<in> S \<or> (\<exists>s\<in>S. int (length cur) \<le> chunk_size cfg + 1 \<or>
                                    int (length cur) \<le> chunk_overlap cfg + 1 + int (length s))"
    and "int (length cur) \<le> n"
  shows "(\<forall>c\<in>set chunks'.
           c \<in> S \<or> (\<exists>s\<in>S. int (length c) \<le> chunk_size cfg + 1 \<or>
                              int (length c) \<le> chunk_overlap cfg + 1 + int (length s))) \<and>
         (cur' \<noteq> [] \<longrightarrow>
           strip cur' \<in> S \<or> (\<exists>s\<in>S. int (length cur') \<le> chunk_size cfg + 1 \<or>
                                     int (length cur') \<le> chunk_overlap cfg + 1 + int (length s)))"
  using assms
proof (induction sents arbitrary: chunks cur n)
  case Nil
  then show ?case by auto
next
  case (Cons sentence rest)
  let ?s = "strip sentence"
  have rest: "\<And>s. s \<in> set rest \<Longrightarrow> strip s \<noteq> [] \<Longrightarrow> strip s \<in> S"
    using Cons.prems(2) by simp
  show ?case
  proof (cases "?s = []")
    case True
    have "chunk_loop cfg rest chunks cur n = (chunks', cur')"
      using Cons.prems(1) by (simp only: chunk_loop_skip [OF True])
    from Cons.IH [OF this rest Cons.prems(3) Cons.prems(4) Cons.prems(5)] show ?thesis by blast
  next
    case False
    then have sS: "?s \<in> S" using Cons.prems(2) by simp
    have tr: "strip ?s = ?s" using False by (simp add: trimmed_strip strip_trimmed)
    show ?thesis
    proof (cases "n + int (length ?s) > chunk_size cfg \<and> cur \<noteq> []")
      case True
      let ?cur = "get_overlap_text cfg cur @ '' '' @ ?s"
      have l: "chunk_loop cfg rest (chunks @ [strip cur]) ?cur (int (length ?cur)) = (chunks', cur')"
        using Cons.prems(1) by (simp only: chunk_loop_emit [OF False True])
      have c1: "c \<in> S \<or> (\<exists>s\<in>S. int (length c) \<le> chunk_size cfg + 1 \<or>
                              int (length c) \<le> chunk_overlap cfg + 1 + int (length s))"
        if "c \<in> set (chunks @ [strip cur])" for c
      proof (cases "c \<in> set chunks")
        case True
        then show ?thesis by (rule Cons.prems(3))
      next
        case False
        then have c: "c = strip cur" using that by simp
        have "length (strip cur) \<le> length cur" by (rule length_strip_le)
        then show ?thesis using Cons.prems(4) True c by fastforce
      qed
      have c2: "strip ?cur \<in> S \<or> (\<exists>s\<in>S. int (length ?cur) \<le> chunk_size cfg + 1 \<or>
                              int (length ?cur) \<le> chunk_overlap cfg + 1 + int (length s))"
      proof (cases "chunk_overlap cfg < 0")
        case True
        then have "strip ?cur = ?s"
          by (simp add: get_overlap_text_negative strip_space_Cons isspace_blank tr)
        then show ?thesis using sS by simp
      next
        case False
        then have "int (length ?cur) \<le> chunk_overlap cfg + 1 + int (length ?s)"
          using get_overlap_text_length [of cfg cur] by simp
        then show ?thesis using sS by blast
      qed
      from Cons.IH [OF l rest c1 c2] show ?thesis by blast
    next
      case False
      note noemit = this
      let ?cur = "if cur \<noteq> [] then cur @ '' '' @ ?s else ?s"
      have l: "chunk_loop cfg rest chunks ?cur (n + int (length ?s) + 1) = (chunks', cur')"
        using Cons.prems(1) by (simp only: chunk_loop_append [OF \<open>?s \<noteq> []\<close> False])
      have c2: "strip ?cur \<in> S \<or> (\<exists>s\<in>S. int (length ?cur) \<le> chunk_size cfg + 1 \<or>
                              int (length ?cur) \<le> chunk_overlap cfg + 1 + int (length s))"
      proof (cases "cur = []")
        case True
        then show ?thesis using sS tr by simp
      next
        case False
        then have "int (length ?cur) \<le> chunk_size cfg + 1"
          using noemit Cons.prems(5) by simp
        then show ?thesis using sS by blast
      qed
      have c3: "int (length ?cur) \<le> n + int (length ?s) + 1"
        using Cons.prems(5) by simp
      from Cons.IH [OF l rest Cons.prems(3) c2 c3] show ?thesis by blast
    qed
  qed
qed

lemma sentences_of_nonempty: "s \<in> set (sentences_of text) \<Longrightarrow> 1 \<le> length s"
  by (auto simp: sentences_of_def Suc_le_eq)

lemma glove_chunks:
  "split_text_into_chunks oversized_overlap_processor glove_text =
     [''Wear a helmet.'', ''Wear a helmet. Wear boots.'', ''Wear a helmet. Wear boots. Wear gloves.'']"
  by code_simp

lemma glove_sentences: "sentences_of glove_text = [''Wear a helmet.'', ''Wear boots.'', ''Wear gloves.'']"
  by code_simp

lemma glove_default: "glove_text \<in> set (split_text_into_chunks default_processor glove_text)"
  by code_simp

text \<open>
  Claim C6 as stated fails for a processor whose overlap is not smaller than its
  chunk size: with \<open>chunk_size = 10\<close> and \<open>chunk_overlap = 100\<close> the text
  "Wear a helmet. Wear boots. Wear gloves." gives the chunk
  "Wear a helmet. Wear boots." of 26 characters, which is not a single sentence and
  is longer than 10 plus the length of any sentence (at most 14).
\<close>

theorem oversized_overlap_breaks_length_bound:
  "\<not> (\<forall>c\<in>set (split_text_into_chunks oversized_overlap_processor glove_text).
        (\<exists>s\<in>set (sentences_of glove_text).
            int (length c) \<le> chunk_size oversized_overlap_processor + int (length s)) \<or>
        (c \<in> set (sentences_of glove_text) \<and> chunk_size oversized_overlap_processor < int (length c)))"
  unfolding glove_chunks glove_sentences by (simp add: oversized_overlap_processor_def)

lemma chunk_length_bound_one:
  assumes "chunk_overlap cfg < chunk_size cfg"
    and "c \<in> set (split_text_into_chunks cfg text)"
  shows "(\<exists>s\<in>set (sentences_of text). int (length c) \<le> chunk_size cfg + int (length s)) \<or>
         (c \<in> set (sentences_of text) \<and> chunk_size cfg < int (length c))"
proof -
  let ?S = "set (sentences_of text)"
  obtain chunks' cur' where l: "chunk_loop cfg (split_sentences [] text) [] [] 0 = (chunks', cur')"
    by (cases "chunk_loop cfg (split_sentences [] text) [] [] 0")
  have inS: "\<And>s. s \<in> set (split_sentences [] text) \<Longrightarrow> strip s \<noteq> [] \<Longrightarrow> strip s \<in> ?S"
    by (auto simp: sentences_of_def)
  have inv: "(\<forall>c\<in>set chunks'.
           c \<in> ?S \<or> (\<exists>s\<in>?S. int (length c) \<le> chunk_size cfg + 1 \<or>
                              int (length c) \<le> chunk_overlap cfg + 1 + int (length s))) \<and>
         (cur' \<noteq> [] \<longrightarrow>
           strip cur' \<in> ?S \<or> (\<exists>s\<in>?S. int (length cur') \<le> chunk_size cfg + 1 \<or>
                                     int (length cur') \<le> chunk_overlap cfg + 1 + int (length s)))"
    by (rule chunk_loop_bound [OF l inS]) simp_all
  have h: "c \<in> ?S \<or> (\<exists>s\<in>?S. int (length c) \<le> chunk_size cfg + 1 \<or>
                              int (length c) \<le> chunk_overlap cfg + 1 + int (length s))"
  proof (cases "c \<in> set chunks'")
    case True
    then show ?thesis using inv by blast
  next
    case False
    then have c: "c = strip cur'" and ne: "strip cur' \<noteq> []"
      using assms(2) l by (auto simp: split_text_into_chunks_def split: if_splits)
    then have "cur' \<noteq> []" by (auto simp: strip_def lstrip_def rstrip_def)
    moreover have "length (strip cur') \<le> length cur'" by (rule length_strip_le)
    ultimately show ?thesis using inv c by fastforce
  qed
  then show ?thesis
  proof
    assume cS: "c \<in> ?S"
    show ?thesis
    proof (cases "chunk_size cfg < int (length c)")
      case True
      then show ?thesis using cS by simp
    next
      case False
      then have "int (length c) \<le> chunk_size cfg + int (length c)" by simp
      then show ?thesis using cS by blast
    qed
  next
    assume "\<exists>s\<in>?S. int (length c) \<le> chunk_size cfg + 1 \<or>
                    int (length c) \<le> chunk_overlap cfg + 1 + int (length s)"
    then obtain s where s: "s \<in> ?S"
      and b: "int (length c) \<le> chunk_size cfg + 1 \<or>
              int (length c) \<le> chunk_overlap cfg + 1 + int (length s)" by blast
    have "1 \<le> length s" using s by (rule sentences_of_nonempty)
    then have "int (length c) \<le> chunk_size cfg + int (length s)"
      using b assms(1) by linarith
    then show ?thesis using s by blast
  qed
qed

lemma suffix_lstrip:
  assumes "suffix s x" "s \<noteq> []" "\<not> isspace (hd s)"
  shows "suffix s (lstrip x)"
proof -
  obtain pre where x: "x = pre @ s" using assms(1) by (auto simp: suffix_def)
  have "dropWhile isspace s = s" using assms(2,3) by (simp add: dropWhile_eq_self_iff)
  then have "suffix s (dropWhile isspace (pre @ s))"
    by (auto simp: dropWhile_append suffix_def)
  then show ?thesis by (simp add: x lstrip_def)
qed

lemma sublist_strip_append:
  assumes "r = [] \<or> \<not> isspace (last r)"
    and "cur = [] \<or> \<not> isspace (last cur)" and "sublist s (strip cur)"
  shows "sublist s (strip (cur @ r))"
proof (cases "cur = []")
  case True
  then have "s = []" using assms(3) by (simp add: strip_def lstrip_def rstrip_def)
  then show ?thesis by simp
next
  case False
  then have l: "\<not> isspace (last cur)" using assms(2) by simp
  have e: "cur @ r = [] \<or> \<not> isspace (last (cur @ r))" using assms(1) l False by (auto simp: last_append)
  have "last cur \<in> set cur" using False by simp
  then have "dropWhile isspace (cur @ r) = dropWhile isspace cur @ r"
    using l by (rule dropWhile_append1)
  then have "strip (cur @ r) = strip cur @ r"
    using e assms(2) by (simp add: strip_ends_nonspace lstrip_def)
  then show ?thesis using assms(3) by (auto simp: sublist_def) (metis append.assoc)
qed

lemma chunk_loop_covers:
  assumes "chunk_loop cfg sents chunks cur n = (chunks', cur')"
    and "cur = [] \<or> \<not> isspace (last cur)"
    and "\<And>s. s \<in> P \<Longrightarrow> (\<exists>c\<in>set chunks. sublist s c) \<or> sublist s (strip cur)"
    and "s \<in> P \<or> (\<exists>x\<in>set sents. strip x \<noteq> [] \<and> s = strip x)"
  shows "(\<exists>c\<in>set chunks'. sublist s c) \<or> sublist s (strip cur')"
  using assms
proof (induction sents arbitrary: chunks cur n P)
  case Nil
  then show ?case by auto
next
  case (Cons sentence rest)
  let ?s = "strip sentence"
  show ?case
  proof (cases "?s = []")
    case True
    have l: "chunk_loop cfg rest chunks cur n = (chunks', cur')"
      using Cons.prems(1) by (simp only: chunk_loop_skip [OF True])
    have "s \<in> P \<or> (\<exists>x\<in>set rest. strip x \<noteq> [] \<and> s = strip x)"
      using Cons.prems(4) True by auto
    from Cons.IH [OF l Cons.prems(2) Cons.prems(3) this] show ?thesis by blast
  next
    case False
    then have tr: "trimmed ?s" by (rule trimmed_strip)
    then have ls: "\<not> isspace (last ?s)" and hs: "\<not> isspace (hd ?s)" and sne: "?s \<noteq> []"
      by (simp_all add: trimmed_def)
    have mem: "s \<in> insert ?s P \<or> (\<exists>x\<in>set rest. strip x \<noteq> [] \<and> s = strip x)"
      using Cons.prems(4) by auto
    show ?thesis
    proof (cases "n + int (length ?s) > chunk_size cfg \<and> cur \<noteq> []")
      case True
      let ?cur = "get_overlap_text cfg cur @ '' '' @ ?s"
      have l: "chunk_loop cfg rest (chunks @ [strip cur]) ?cur (int (length ?cur)) = (chunks', cur')"
        using Cons.prems(1) by (simp only: chunk_loop_emit [OF False True])
      have b: "?cur = [] \<or> \<not> isspace (last ?cur)" using ls sne by simp
      have new: "sublist ?s (strip ?cur)"
      proof -
        have "suffix ?s ?cur" by (simp add: suffix_def)
        then have "suffix ?s (lstrip ?cur)" using sne hs by (rule suffix_lstrip)
        then have "suffix ?s (strip ?cur)" using b by (simp add: strip_ends_nonspace)
        then show ?thesis by (rule suffix_imp_sublist)
      qed
      have c: "(\<exists>c\<in>set (chunks @ [strip cur]). sublist t c) \<or> sublist t (strip ?cur)"
        if "t \<in> insert ?s P" for t
        using that new Cons.prems(3) by auto
      from Cons.IH [OF l b c mem] show ?thesis by blast
    next
      case False
      let ?cur = "if cur \<noteq> [] then cur @ '' '' @ ?s else ?s"
      have l: "chunk_loop cfg rest chunks ?cur (n + int (length ?s) + 1) = (chunks', cur')"
        using Cons.prems(1) by (simp only: chunk_loop_append [OF sne False])
      have b: "?cur = [] \<or> \<not> isspace (last ?cur)" using ls sne by simp
      have new: "sublist ?s (strip ?cur)"
      proof -
        have "suffix ?s ?cur" by (simp add: suffix_def)
        then have "suffix ?s (lstrip ?cur)" using sne hs by (rule suffix_lstrip)
        then have "suffix ?s (strip ?cur)" using b by (simp add: strip_ends_nonspace)
        then show ?thesis by (rule suffix_imp_sublist)
      qed
      have old: "sublist t (strip ?cur)" if "sublist t (strip cur)" for t
      proof (cases "cur = []")
        case True
        then have "t = []" using that by (simp add: strip_def lstrip_def rstrip_def)
        then show ?thesis by simp
      next
        case False
        have "sublist t (strip (cur @ ('' '' @ ?s)))"
          by (rule sublist_strip_append [OF _ Cons.prems(2) that]) (use ls sne in simp)
        then show ?thesis using False by simp
      qed
      have c: "(\<exists>c\<in>set chunks. sublist t c) \<or> sublist t (strip ?cur)"
        if "t \<in> insert ?s P" for t
        using that new old Cons.prems(3) by blast
      from Cons.IH [OF l b c mem] show ?thesis by blast
    qed
  qed
qed

lemma sentences_kept_whole:
  assumes "s \<in> set (sentences_of text)"
  shows "\<exists>c\<in>set (split_text_into_chunks cfg text). sublist s c"
proof -
  have sne: "s \<noteq> []" using assms by (auto simp: sentences_of_def)
  have tne: "text \<noteq> []"
  proof
    assume "text = []"
    then have "sentences_of text = []" by (simp add: sentences_of_def strip_def lstrip_def rstrip_def)
    then show False using assms by simp
  qed
  obtain chunks' cur' where l: "chunk_loop cfg (split_sentences [] text) [] [] 0 = (chunks', cur')"
    by (cases "chunk_loop cfg (split_sentences [] text) [] [] 0")
  have m: "s \<in> {} \<or> (\<exists>x\<in>set (split_sentences [] text). strip x \<noteq> [] \<and> s = strip x)"
    using assms by (auto simp: sentences_of_def)
  have "(\<exists>c\<in>set chunks'. sublist s c) \<or> sublist s (strip cur')"
    by (rule chunk_loop_covers [OF l _ _ m]) simp_all
  then show ?thesis
  proof
    assume "\<exists>c\<in>set chunks'. sublist s c"
    then show ?thesis using l tne by (auto simp: split_text_into_chunks_def)
  next
    assume a: "sublist s (strip cur')"
    then have "strip cur' \<noteq> []" using sne by auto
    then show ?thesis using a l tne by (auto simp: split_text_into_chunks_def)
  qed
qed

text \<open>
  Claim C6, amended. When the overlap is smaller than the target chunk size, as
  in the default processor (100 and 800), every chunk of
  \<open>_split_text_into_chunks\<close> is at most the target size plus the length of one
  sentence of the text long, or it is a single sentence longer than the target
  size. Nothing is truncated: every sentence of the text is contained whole in
  some chunk, whatever the sizes.
\<close>

theorem chunk_length_bound:
  "chunk_overlap cfg < chunk_size cfg \<Longrightarrow> c \<in> set (split_text_into_chunks cfg text) \<Longrightarrow>
     ((\<exists>s\<in>set (sentences_of text). int (length c) \<le> chunk_size cfg + int (length s)) \<or>
      (c \<in> set (sentences_of text) \<and> chunk_size cfg < int (length c))) \<and>
     (\<forall>s\<in>set (sentences_of text). \<exists>c'\<in>set (split_text_into_chunks cfg text). sublist s c')"
  using chunk_length_bound_one sentences_kept_whole by blast

theorem chunk_length_bound_witness:
  "(\<exists>s\<in>set (sentences_of glove_text).
       int (length glove_text) \<le> chunk_size default_processor + int (length s)) \<or>
   (glove_text \<in> set (sentences_of glove_text) \<and> chunk_size default_processor < int (length glove_text))"
proof -
  have "chunk_overlap default_processor < chunk_size default_processor"
    by (simp add: default_processor_def)
  from chunk_length_bound [OF this glove_default] show ?thesis by (rule conjunct1)
qed

section \<open>The overlap of consecutive chunks\<close>














lemma snapping_chunks:
  "split_text_into_chunks snapping_processor snapping_text =
     [''Wear a helmet. Stay alert.'',
      ''Stay alert. Report every incident to the supervisor at once.'']"
  by code_simp


text \<open>
  Sentence snapping at work: the buffer "Wear a helmet. Stay alert." has 26
  characters, the window of its last 20 characters holds a sentence boundary, and
  the overlap is the trailing sentence "Stay alert.", which starts the next chunk.
\<close>

lemma overlap_snaps_to_trailing_sentence:
  "window_has_boundary snapping_processor ''Wear a helmet. Stay alert.'' \<and>
   get_overlap_text snapping_processor ''Wear a helmet. Stay alert.'' = ''Stay alert.''"
  by code_simp




end
